theory Spec2Isabelle
  imports Main
begin

section \<open>Request bodies\<close>

text \<open>
  A request body as \<open>express.json()\<close> hands it to the route: a parsed JSON value.
  An object is the list of its entries, in insertion order; reading a property is a
  lookup of its key. Numbers matter only through their type, so an integer stands for them.
  A string is the list of its characters; \<open>CHR 0x00\<close> is the character U+0000.
\<close>

datatype json =
    JNull
  | JBool bool
  | JNum int
  | JStr string
  | JArr "json list"
  | JObj "(string \<times> json) list"

definition obj_get :: "(string \<times> json) list \<Rightarrow> string \<Rightarrow> json option" where
  "obj_get props k = map_of props k"

section \<open>The shared schema (schema.ts, routes of the shared API layer)\<close>

text \<open>
  \<open>insertSubscriberSchema = createInsertSchema(subscribers).pick({ email: true })\<close>.
  The column is \<open>text("email").notNull()\<close>, for which drizzle-zod generates
  \<open>z.string()\<close>: the schema is \<open>z.object({ email: z.string() })\<close>, with zod's default
  handling of unknown keys (they are stripped) and zod's default messages.
  \<open>parse\<close> either returns the typed value or throws a \<open>ZodError\<close> holding a list of issues.
\<close>

record zod_issue =
  path :: "string list"
  message :: string

record insert_subscriber =
  email :: string

fun getParsedType :: "json \<Rightarrow> string" where
  "getParsedType JNull = ''null''"
| "getParsedType (JBool b) = ''boolean''"
| "getParsedType (JNum n) = ''number''"
| "getParsedType (JStr s) = ''string''"
| "getParsedType (JArr xs) = ''array''"
| "getParsedType (JObj fs) = ''object''"

text \<open>\<open>z.string()\<close> applied to the value of a property (\<open>None\<close>: the property is absent).\<close>

definition zod_string :: "string list \<Rightarrow> json option \<Rightarrow> zod_issue list + string" where
  "zod_string p v =
     (case v of
        None \<Rightarrow> Inl [\<lparr>path = p, message = ''Required''\<rparr>]
      | Some (JStr s) \<Rightarrow> Inr s
      | Some j \<Rightarrow> Inl [\<lparr>path = p, message = ''Expected string, received '' @ getParsedType j\<rparr>])"

definition insertSubscriberSchema :: "json \<Rightarrow> zod_issue list + insert_subscriber" where
  "insertSubscriberSchema body =
     (case body of
        JObj props \<Rightarrow>
          (case zod_string [''email''] (obj_get props ''email'') of
             Inl issues \<Rightarrow> Inl issues
           | Inr s \<Rightarrow> Inr \<lparr>email = s\<rparr>)
      | j \<Rightarrow> Inl [\<lparr>path = [], message = ''Expected object, received '' @ getParsedType j\<rparr>])"

text \<open>The API contract \<open>api.subscribers.create\<close>: one object, imported by client and server.\<close>

record 'i api_endpoint =
  http_method :: string
  route_path :: string
  input :: "json \<Rightarrow> zod_issue list + 'i"

definition api_subscribers_create :: "insert_subscriber api_endpoint" where
  "api_subscribers_create =
     \<lparr>http_method = ''POST'', route_path = ''/api/subscribers'', input = insertSubscriberSchema\<rparr>"

section \<open>The table and the storage layer (schema.ts, storage.ts)\<close>

text \<open>
  \<open>subscribers\<close>: \<open>id serial primary key\<close>, \<open>email text not null unique\<close>,
  \<open>created_at timestamp default now()\<close> (nullable). A row extends the insert type by
  the two generated columns.
\<close>

type_synonym timestamp = int

record subscriber = insert_subscriber +
  subscriber_id :: nat
  createdAt :: "timestamp option"

text \<open>
  The database: the rows of the table and the next value of the sequence behind the
  serial column. An insert draws the id from the sequence before the constraints are
  checked, so an insert rejected by a constraint consumes an id as well.
\<close>

record db =
  rows :: "subscriber list"
  id_seq :: nat

definition empty_db :: db where
  "empty_db = \<lparr>rows = [], id_seq = 1\<rparr>"

text \<open>
  What PostgreSQL refuses here. A text value must not hold the character U+0000: a
  statement with such a parameter fails when the value is bound, before the table is
  touched (\<open>invalid byte sequence\<close>, 22021). The sequence of a serial column ends at
  \<open>2147483647\<close>: \<open>nextval\<close> fails beyond it and leaves the sequence as it is. A second
  row with the same id or the same email violates a constraint (23505).
\<close>

datatype db_error = UniqueViolation string | InvalidByteSequence | SequenceLimitExceeded

definition serial_max :: nat where
  "serial_max = 2147483647"

definition pg_text :: "string \<Rightarrow> bool" where
  "pg_text s = (CHR 0x00 \<notin> set s)"

definition emails :: "db \<Rightarrow> string list" where
  "emails d = map email (rows d)"

text \<open>
  \<open>const [subscriber] = await db.select().from(subscribers).where(eq(subscribers.email, email))\<close>:
  the first matching row, or nothing, or the refusal of the parameter. No stored email
  holds U+0000, since the insert refuses it; so a refused value has no match in a table of
  the database, and the order of the two tests below cannot be observed there
  (\<open>lookup_refused\<close>).
\<close>

definition getSubscriberByEmail :: "db \<Rightarrow> string \<Rightarrow> db_error + subscriber option" where
  "getSubscriberByEmail d e =
     (case filter (\<lambda>s. email s = e) (rows d) of
        s # _ \<Rightarrow> Inr (Some s)
      | [] \<Rightarrow> (if pg_text e then Inr None else Inl InvalidByteSequence))"

text \<open>\<open>const [subscriber] = await db.insert(subscribers).values(insertSubscriber).returning()\<close>\<close>

definition createSubscriber ::
  "timestamp \<Rightarrow> db \<Rightarrow> insert_subscriber \<Rightarrow> (db_error + subscriber) \<times> db" where
  "createSubscriber now d ins =
     (if \<not> pg_text (email ins) then (Inl InvalidByteSequence, d)
      else if serial_max < id_seq d then (Inl SequenceLimitExceeded, d)
      else
        (let row = \<lparr>email = email ins, subscriber_id = id_seq d, createdAt = Some now\<rparr>;
             d' = d\<lparr>id_seq := id_seq d + 1\<rparr>
         in if subscriber_id row \<in> set (map subscriber_id (rows d))
            then (Inl (UniqueViolation ''subscribers_pkey''), d')
            else if email row \<in> set (emails d)
            then (Inl (UniqueViolation ''subscribers_email_unique''), d')
            else (Inr row, d'\<lparr>rows := rows d @ [row]\<rparr>)))"

section \<open>The route handler (POST /api/subscribers)\<close>

datatype response_body =
    SubscriberJson subscriber
  | ValidationJson string string
  | MessageJson string

datatype handler_error = DbError db_error | TypeError

text \<open>
  What a call of the handler ends with: a response (status and JSON body), or an error
  thrown out of the handler, for the error middleware.
\<close>

datatype outcome = Responded nat response_body | Rethrown handler_error

fun join_dot :: "string list \<Rightarrow> string" where
  "join_dot [] = []"
| "join_dot [x] = x"
| "join_dot (x # y # r) = x @ ''.'' @ join_dot (y # r)"

text \<open>The \<open>catch\<close> branch for a \<open>ZodError\<close>: \<open>err.errors[0]\<close> of an empty list is undefined.\<close>

definition on_zod_error :: "zod_issue list \<Rightarrow> outcome" where
  "on_zod_error issues =
     (case issues of
        [] \<Rightarrow> Rethrown TypeError
      | i # _ \<Rightarrow> Responded 400 (ValidationJson (message i) (join_dot (path i))))"

definition conflict_response :: outcome where
  "conflict_response = Responded 409 (MessageJson ''Email already subscribed'')"

text \<open>The handler run without interruption: validate, look up, insert, respond.\<close>

definition subscribe :: "timestamp \<Rightarrow> db \<Rightarrow> json \<Rightarrow> outcome \<times> db" where
  "subscribe now d body =
     (case input api_subscribers_create body of
        Inl issues \<Rightarrow> (on_zod_error issues, d)
      | Inr inp \<Rightarrow>
          (case getSubscriberByEmail d (email inp) of
             Inl err \<Rightarrow> (Rethrown (DbError err), d)
           | Inr (Some existing) \<Rightarrow> (conflict_response, d)
           | Inr None \<Rightarrow>
               (case createSubscriber now d inp of
                  (Inl err, d') \<Rightarrow> (Rethrown (DbError err), d')
                | (Inr s, d') \<Rightarrow> (Responded 201 (SubscriberJson s), d'))))"

text \<open>
  The same handler cut at its two \<open>await\<close>s. Each database statement is atomic; between
  the lookup and the insert of one call, statements of other calls may run.
\<close>

datatype request = Received json | Checked insert_subscriber | Finished outcome

fun step :: "timestamp \<Rightarrow> db \<Rightarrow> request \<Rightarrow> request \<times> db" where
  "step now d (Received body) =
     (case input api_subscribers_create body of
        Inl issues \<Rightarrow> (Finished (on_zod_error issues), d)
      | Inr inp \<Rightarrow>
          (case getSubscriberByEmail d (email inp) of
             Inl err \<Rightarrow> (Finished (Rethrown (DbError err)), d)
           | Inr (Some existing) \<Rightarrow> (Finished conflict_response, d)
           | Inr None \<Rightarrow> (Checked inp, d)))"
| "step now d (Checked inp) =
     (case createSubscriber now d inp of
        (Inl err, d') \<Rightarrow> (Finished (Rethrown (DbError err)), d')
      | (Inr s, d') \<Rightarrow> (Finished (Responded 201 (SubscriberJson s)), d'))"
| "step now d (Finished out) = (Finished out, d)"

text \<open>A schedule names, statement by statement, which call runs next and at what time.\<close>

fun run_sched :: "db \<Rightarrow> request list \<Rightarrow> (nat \<times> timestamp) list \<Rightarrow> request list \<times> db" where
  "run_sched d rs [] = (rs, d)"
| "run_sched d rs ((i, now) # sched) =
     (if i < length rs
      then (case step now d (rs ! i) of (r', d') \<Rightarrow> run_sched d' (rs[i := r']) sched)
      else run_sched d rs sched)"

text \<open>Calls served one after the other.\<close>

fun run_requests :: "db \<Rightarrow> (timestamp \<times> json) list \<Rightarrow> outcome list \<times> db" where
  "run_requests d [] = ([], d)"
| "run_requests d ((now, body) # reqs) =
     (case subscribe now d body of
        (out, d') \<Rightarrow> (case run_requests d' reqs of (outs, d'') \<Rightarrow> (out # outs, d'')))"

text \<open>
  A database as the statements above leave it: every id was drawn from the sequence, the
  unique constraint on \<open>email\<close> holds, and every stored email is a text value.
\<close>

definition db_wf :: "db \<Rightarrow> bool" where
  "db_wf d =
     (list_all (\<lambda>s. subscriber_id s < id_seq d) (rows d) \<and> distinct (emails d) \<and>
      list_all pg_text (emails d))"

text \<open>The sequence can still hand out \<open>n\<close> ids.\<close>

definition has_room :: "nat \<Rightarrow> db \<Rightarrow> bool" where
  "has_room n d = (id_seq d + n \<le> Suc serial_max)"

text \<open>
  The code has no format rule for an email beyond its being a string. What the
  specification calls a valid email, an address of the form local-part@domain, is in any
  case a string of at most 254 printable ASCII characters; the results on stored emails
  are stated for every such string.
\<close>

definition address_text :: "string \<Rightarrow> bool" where
  "address_text e =
     (length e \<le> 254 \<and> list_all (\<lambda>c. 32 \<le> (of_char c :: nat) \<and> (of_char c :: nat) \<le> 126) e)"

text \<open>The body \<open>{ email: e }\<close>.\<close>

definition email_body :: "string \<Rightarrow> json" where
  "email_body e = JObj [(''email'', JStr e)]"

fun is_finished :: "request \<Rightarrow> bool" where
  "is_finished (Finished out) = True"
| "is_finished r = False"

fun is_created :: "request \<Rightarrow> bool" where
  "is_created (Finished (Responded st (SubscriberJson s))) = (st = 201)"
| "is_created r = False"

definition unique_email_rethrown :: outcome where
  "unique_email_rethrown = Rethrown (DbError (UniqueViolation ''subscribers_email_unique''))"

section \<open>The client hook (useCreateSubscriber)\<close>

text \<open>
  \<open>mutationFn\<close> parses its argument with the schema of the contract, and sends
  \<open>JSON.stringify(validated)\<close>; a rejected argument throws before anything is sent.
\<close>

definition client_validate :: "json \<Rightarrow> zod_issue list + insert_subscriber" where
  "client_validate data = input api_subscribers_create data"

definition stringify_input :: "insert_subscriber \<Rightarrow> json" where
  "stringify_input v = JObj [(''email'', JStr (email v))]"

definition mutationFn_body :: "json \<Rightarrow> zod_issue list + json" where
  "mutationFn_body data =
     (case client_validate data of
        Inl issues \<Rightarrow> Inl issues
      | Inr validated \<Rightarrow> Inr (stringify_input validated))"

section \<open>buildUrl (shared API layer)\<close>

text \<open>
  Strings are lists of characters. \<open>url.includes(p)\<close> asks for an occurrence of \<open>p\<close>;
  \<open>url.replace(p, r)\<close> with a string pattern rewrites the first occurrence only, and
  reads \<open>r\<close> as a replacement template: \<open>$$\<close> stands for a dollar sign, \<open>$&\<close> for the
  matched text, \<open>$`\<close> for the text left of the match and \<open>$'\<close> for the text right of it.
  A string pattern has no capture groups, so every other \<open>$\<close> is kept as it is.
\<close>

definition starts_with :: "string \<Rightarrow> string \<Rightarrow> bool" where
  "starts_with s p = (take (length p) s = p)"

fun split_first :: "string \<Rightarrow> string \<Rightarrow> (string \<times> string) option" where
  "split_first p [] = (if p = [] then Some ([], []) else None)"
| "split_first p (c # cs) =
     (if starts_with (c # cs) p then Some ([], drop (length p) (c # cs))
      else (case split_first p cs of
              None \<Rightarrow> None
            | Some (pre, post) \<Rightarrow> Some (c # pre, post)))"

definition str_includes :: "string \<Rightarrow> string \<Rightarrow> bool" where
  "str_includes s p = (split_first p s \<noteq> None)"

fun get_substitution :: "string \<Rightarrow> string \<Rightarrow> string \<Rightarrow> string \<Rightarrow> string" where
  "get_substitution matched pre post [] = []"
| "get_substitution matched pre post [c] = [c]"
| "get_substitution matched pre post (c # d # r) =
     (if c = CHR ''$'' then
        (if d = CHR ''$'' then CHR ''$'' # get_substitution matched pre post r
         else if d = CHR ''&'' then matched @ get_substitution matched pre post r
         else if d = CHR 0x60 then pre @ get_substitution matched pre post r
         else if d = CHR 0x27 then post @ get_substitution matched pre post r
         else c # get_substitution matched pre post (d # r))
      else c # get_substitution matched pre post (d # r))"

definition str_replace :: "string \<Rightarrow> string \<Rightarrow> string \<Rightarrow> string" where
  "str_replace s p r =
     (case split_first p s of
        None \<Rightarrow> s
      | Some (pre, post) \<Rightarrow> pre @ get_substitution p pre post r @ post)"

text \<open>
  A parameter value is a string or a number; \<open>String(value)\<close> leaves a string as it is.
  Of the numbers, the model has the safe integers, those of size at most \<open>2^53 - 1\<close>:
  each of them is a number of JavaScript exactly, and \<open>String\<close> writes it with all its
  decimal digits. Other numbers are not values of the type.
\<close>

typedef safe_integer = "{n :: int. - 9007199254740991 \<le> n \<and> n \<le> 9007199254740991}"
  by (rule exI [of _ 0]) simp

datatype param_value = PStr string | PNum safe_integer

fun digits :: "nat \<Rightarrow> string" where
  "digits n = (if n < 10 then [char_of (48 + n)] else digits (n div 10) @ [char_of (48 + n mod 10)])"

declare digits.simps [simp del]

definition String_of :: "param_value \<Rightarrow> string" where
  "String_of v =
     (case v of
        PStr s \<Rightarrow> s
      | PNum n \<Rightarrow>
          (if Rep_safe_integer n < 0 then CHR ''-'' # digits (nat (- Rep_safe_integer n))
           else digits (nat (Rep_safe_integer n))))"

text \<open>The body of the \<open>forEach\<close> callback, on the running \<open>url\<close>.\<close>

definition substitute :: "string \<Rightarrow> string \<times> param_value \<Rightarrow> string" where
  "substitute url kv =
     (case kv of (key, v) \<Rightarrow>
        (if str_includes url (CHR '':'' # key) then str_replace url (CHR '':'' # key) (String_of v) else url))"

text \<open>\<open>params\<close> is optional; when given, it is the list \<open>Object.entries(params)\<close>.\<close>

definition buildUrl :: "string \<Rightarrow> (string \<times> param_value) list option \<Rightarrow> string" where
  "buildUrl p params =
     (case params of
        None \<Rightarrow> p
      | Some entries \<Rightarrow> foldl substitute p entries)"

section \<open>Auxiliary notions for the interleaved runs\<close>

text \<open>How far a call has come: 0 on arrival, 1 after its lookup, 2 when it has ended.\<close>

fun phase :: "request \<Rightarrow> nat" where
  "phase (Received body) = 0"
| "phase (Checked inp) = 1"
| "phase (Finished out) = 2"

text \<open>
  The invariant of a run in which every call carries the body \<open>{ email: e }\<close>: the
  database is well formed, the sequence has an id left for every call that has not ended,
  every call is in one of five shapes, a call has ended only if \<open>e\<close> is stored, there are
  as many \<open>201\<close> answers as rows with email \<open>e\<close>, and every \<open>201\<close> answer carries a
  stored row with email \<open>e\<close>.
\<close>

definition race_inv :: "string \<Rightarrow> db \<Rightarrow> request list \<Rightarrow> bool" where
  "race_inv e d rs =
     (db_wf d \<and>
      has_room (length (filter (\<lambda>r. \<not> is_finished r) rs)) d \<and>
      (\<forall>r\<in>set rs. r = Received (email_body e) \<or> r = Checked \<lparr>email = e\<rparr> \<or> is_created r \<or>
                   r = Finished conflict_response \<or> r = Finished unique_email_rethrown) \<and>
      ((\<exists>r\<in>set rs. is_finished r) \<longrightarrow> e \<in> set (emails d)) \<and>
      length (filter is_created rs) = length (filter (\<lambda>s. email s = e) (rows d)) \<and>
      (\<forall>s. Finished (Responded 201 (SubscriberJson s)) \<in> set rs \<longrightarrow>
           s \<in> set (rows d) \<and> email s = e))"

section \<open>Facts about the schema and the storage layer\<close>

lemma parse_email_body [simp]:
  "input api_subscribers_create (email_body e) = Inr \<lparr>email = e\<rparr>"
  by (simp add: api_subscribers_create_def insertSubscriberSchema_def zod_string_def
      obj_get_def email_body_def)

lemma parse_object:
  "obj_get props ''email'' = Some (JStr e) \<Longrightarrow>
   input api_subscribers_create (JObj props) = Inr \<lparr>email = e\<rparr>"
  by (simp add: api_subscribers_create_def insertSubscriberSchema_def zod_string_def)

lemma parse_issues_nonempty:
  "input api_subscribers_create body = Inl issues \<Longrightarrow> \<exists>i. issues = [i] \<and> message i \<noteq> []"
  by (auto simp: api_subscribers_create_def insertSubscriberSchema_def zod_string_def
      split: json.splits option.splits sum.splits)

lemma address_text_pg: "address_text e \<Longrightarrow> pg_text e"
  by (auto simp: address_text_def pg_text_def list_all_iff)

lemma filter_email_empty:
  "filter (\<lambda>s. email s = e) (rows d) = [] \<longleftrightarrow> e \<notin> set (emails d)"
  by (auto simp: emails_def filter_empty_conv)

lemma lookup_hit: "e \<in> set (emails d) \<Longrightarrow> \<exists>s. getSubscriberByEmail d e = Inr (Some s)"
proof -
  assume "e \<in> set (emails d)"
  then have "filter (\<lambda>s. email s = e) (rows d) \<noteq> []" by (simp add: filter_email_empty)
  then obtain s r where "filter (\<lambda>s. email s = e) (rows d) = s # r"
    by (cases "filter (\<lambda>s. email s = e) (rows d)") auto
  then show ?thesis by (simp add: getSubscriberByEmail_def)
qed

lemma lookup_miss:
  "e \<notin> set (emails d) \<Longrightarrow> pg_text e \<Longrightarrow> getSubscriberByEmail d e = Inr None"
  by (simp add: getSubscriberByEmail_def filter_email_empty [THEN iffD2])

text \<open>
  In a well-formed database a value holding U+0000 is refused whatever the table holds:
  there the lookup behaves as the statement does, which fails when the value is bound.
\<close>

lemma lookup_refused:
  "db_wf d \<Longrightarrow> \<not> pg_text e \<Longrightarrow> getSubscriberByEmail d e = Inl InvalidByteSequence"
proof -
  assume wf: "db_wf d" and bad: "\<not> pg_text e"
  have "e \<notin> set (emails d)"
    using wf bad by (auto simp: db_wf_def emails_def list_all_iff)
  then show ?thesis
    using bad by (simp add: getSubscriberByEmail_def filter_email_empty [THEN iffD2])
qed

lemma create_fresh:
  "db_wf d \<Longrightarrow> has_room 1 d \<Longrightarrow> pg_text (email inp) \<Longrightarrow> email inp \<notin> set (emails d) \<Longrightarrow>
   createSubscriber now d inp =
     (Inr \<lparr>email = email inp, subscriber_id = id_seq d, createdAt = Some now\<rparr>,
      \<lparr>rows = rows d @ [\<lparr>email = email inp, subscriber_id = id_seq d, createdAt = Some now\<rparr>],
       id_seq = id_seq d + 1\<rparr>)"
  by (auto simp: createSubscriber_def db_wf_def has_room_def Let_def list_all_iff)

lemma create_taken:
  "db_wf d \<Longrightarrow> has_room 1 d \<Longrightarrow> pg_text (email inp) \<Longrightarrow> email inp \<in> set (emails d) \<Longrightarrow>
   createSubscriber now d inp =
     (Inl (UniqueViolation ''subscribers_email_unique''), d\<lparr>id_seq := id_seq d + 1\<rparr>)"
  by (auto simp: createSubscriber_def db_wf_def has_room_def Let_def list_all_iff)

lemma create_refused_text:
  "\<not> pg_text (email inp) \<Longrightarrow> createSubscriber now d inp = (Inl InvalidByteSequence, d)"
  by (simp add: createSubscriber_def)

lemma create_refused_sequence:
  "pg_text (email inp) \<Longrightarrow> \<not> has_room 1 d \<Longrightarrow>
   createSubscriber now d inp = (Inl SequenceLimitExceeded, d)"
  by (simp add: createSubscriber_def has_room_def)

lemma create_rows:
  "createSubscriber now d inp = (res, d') \<Longrightarrow>
   (case res of Inl err \<Rightarrow> rows d' = rows d
    | Inr s \<Rightarrow> rows d' = rows d @ [s] \<and> email s = email inp \<and> subscriber_id s = id_seq d
        \<and> id_seq d' = id_seq d + 1 \<and> pg_text (email inp) \<and> id_seq d \<le> serial_max
        \<and> email inp \<notin> set (emails d) \<and> id_seq d \<notin> subscriber_id ` set (rows d))"
  by (auto simp: createSubscriber_def Let_def split: if_splits)

lemma create_distinct: "distinct (emails d) \<Longrightarrow> distinct (emails (snd (createSubscriber now d inp)))"
  by (auto simp: createSubscriber_def Let_def emails_def)

text \<open>
  Well-formedness holds of the empty database and is kept by every statement, so it holds
  of every database the handler can reach.
\<close>

lemma db_wf_empty: "db_wf empty_db"
  by (simp add: db_wf_def empty_db_def emails_def)

lemma create_wf: "db_wf d \<Longrightarrow> db_wf (snd (createSubscriber now d inp))"
  by (auto simp: createSubscriber_def db_wf_def Let_def list_all_iff emails_def)

section \<open>Facts about the handler\<close>

lemma subscribe_conflict:
  assumes "obj_get props ''email'' = Some (JStr e)" and "e \<in> set (emails d)"
  shows "subscribe now d (JObj props) = (conflict_response, d)"
proof -
  obtain s where "getSubscriberByEmail d e = Inr (Some s)"
    using lookup_hit [OF assms(2)] by auto
  then show ?thesis
    by (simp add: subscribe_def parse_object [OF assms(1)])
qed

lemma subscribe_conflict_body:
  "e \<in> set (emails d) \<Longrightarrow> subscribe now d (email_body e) = (conflict_response, d)"
  using subscribe_conflict [of "[(''email'', JStr e)]" e d now]
  by (simp add: email_body_def obj_get_def)

lemma subscribe_rows:
  "subscribe now d body = (out, d') \<Longrightarrow>
   rows d' = rows d \<or> (\<exists>s. rows d' = rows d @ [s] \<and> email s \<notin> set (emails d))"
  by (auto simp: subscribe_def createSubscriber_def Let_def
      split: sum.splits option.splits if_splits)

lemma subscribe_keeps_email:
  "e \<in> set (emails d) \<Longrightarrow> e \<in> set (emails (snd (subscribe now d body)))"
proof -
  obtain out d' where sd: "subscribe now d body = (out, d')" by (cases "subscribe now d body")
  assume "e \<in> set (emails d)"
  with subscribe_rows [OF sd] show ?thesis by (auto simp: sd emails_def)
qed

lemma subscribe_distinct:
  "distinct (emails d) \<Longrightarrow> distinct (emails (snd (subscribe now d body)))"
proof -
  obtain out d' where sd: "subscribe now d body = (out, d')" by (cases "subscribe now d body")
  assume "distinct (emails d)"
  with subscribe_rows [OF sd] show ?thesis by (auto simp: sd emails_def)
qed

lemma run_requests_Cons:
  "run_requests d ((now, body) # reqs) =
     (fst (subscribe now d body) # fst (run_requests (snd (subscribe now d body)) reqs),
      snd (run_requests (snd (subscribe now d body)) reqs))"
  by (simp split: prod.splits)

lemma run_sched_Cons:
  "run_sched d rs ((i, now) # sched) =
     (if i < length rs
      then run_sched (snd (step now d (rs ! i))) (rs[i := fst (step now d (rs ! i))]) sched
      else run_sched d rs sched)"
  by (simp split: prod.splits)

lemma run_requests_keeps_email:
  "e \<in> set (emails d) \<Longrightarrow> e \<in> set (emails (snd (run_requests d reqs)))"
proof (induction reqs arbitrary: d)
  case Nil
  then show ?case by simp
next
  case (Cons r reqs)
  obtain now body where r: "r = (now, body)" by (cases r)
  have "e \<in> set (emails (snd (subscribe now d body)))"
    using Cons.prems by (rule subscribe_keeps_email)
  from Cons.IH [OF this] show ?case
    by (simp only: r run_requests_Cons snd_conv)
qed

lemma run_requests_distinct:
  "distinct (emails d) \<Longrightarrow> distinct (emails (snd (run_requests d reqs)))"
proof (induction reqs arbitrary: d)
  case Nil
  then show ?case by simp
next
  case (Cons r reqs)
  obtain now body where r: "r = (now, body)" by (cases r)
  have "distinct (emails (snd (subscribe now d body)))"
    using Cons.prems by (rule subscribe_distinct)
  from Cons.IH [OF this] show ?case
    by (simp only: r run_requests_Cons snd_conv)
qed

lemma step_distinct: "distinct (emails d) \<Longrightarrow> distinct (emails (snd (step now d r)))"
  using create_distinct [of d]
  by (cases r) (auto split: sum.splits option.splits prod.splits simp: prod_eq_iff)

lemma run_sched_distinct:
  "distinct (emails d) \<Longrightarrow> distinct (emails (snd (run_sched d rs sched)))"
proof (induction sched arbitrary: d rs)
  case Nil
  then show ?case by simp
next
  case (Cons a sched)
  obtain i now where a: "a = (i, now)" by (cases a)
  have "distinct (emails (snd (step now d (rs ! i))))"
    using Cons.prems by (rule step_distinct)
  from Cons.IH [OF this] Cons.IH [OF Cons.prems] show ?case
    by (simp add: a run_sched_Cons del: run_sched.simps)
qed

lemma subscribe_fresh:
  assumes "db_wf d" and "has_room 1 d" and "pg_text e" and "e \<notin> set (emails d)"
  shows "subscribe now d (email_body e) =
           (Responded 201 (SubscriberJson \<lparr>email = e, subscriber_id = id_seq d, createdAt = Some now\<rparr>),
            \<lparr>rows = rows d @ [\<lparr>email = e, subscriber_id = id_seq d, createdAt = Some now\<rparr>],
             id_seq = id_seq d + 1\<rparr>)"
proof -
  have "getSubscriberByEmail d e = Inr None" using assms(3,4) by (simp add: lookup_miss)
  moreover have "email \<lparr>email = e\<rparr> \<notin> set (emails d)" using assms(4) by simp
  moreover have "pg_text (email \<lparr>email = e\<rparr>)" using assms(3) by simp
  ultimately show ?thesis
    using create_fresh [OF assms(1,2), of "\<lparr>email = e\<rparr>" now]
    by (simp add: subscribe_def)
qed

text \<open>
  The two refusals of the database other than a duplicate reach the caller as errors
  thrown out of the handler, and nothing is stored.
\<close>

lemma subscribe_refused_text:
  "db_wf d \<Longrightarrow> \<not> pg_text e \<Longrightarrow>
   subscribe now d (email_body e) = (Rethrown (DbError InvalidByteSequence), d)"
  by (simp add: subscribe_def lookup_refused)

lemma subscribe_refused_sequence:
  "pg_text e \<Longrightarrow> e \<notin> set (emails d) \<Longrightarrow> \<not> has_room 1 d \<Longrightarrow>
   subscribe now d (email_body e) = (Rethrown (DbError SequenceLimitExceeded), d)"
  by (simp add: subscribe_def lookup_miss create_refused_sequence)

lemma subscribe_wf: "db_wf d \<Longrightarrow> db_wf (snd (subscribe now d body))"
  using create_wf [of d]
  by (auto simp: subscribe_def split: sum.splits option.splits prod.splits simp: prod_eq_iff)

lemma step_wf: "db_wf d \<Longrightarrow> db_wf (snd (step now d r))"
  using create_wf [of d]
  by (cases r) (auto split: sum.splits option.splits prod.splits simp: prod_eq_iff)

lemma run_requests_wf: "db_wf d \<Longrightarrow> db_wf (snd (run_requests d reqs))"
proof (induction reqs arbitrary: d)
  case Nil
  then show ?case by simp
next
  case (Cons r reqs)
  obtain now body where r: "r = (now, body)" by (cases r)
  have "db_wf (snd (subscribe now d body))"
    using Cons.prems by (rule subscribe_wf)
  from Cons.IH [OF this] show ?case
    by (simp only: r run_requests_Cons snd_conv)
qed

lemma run_sched_wf: "db_wf d \<Longrightarrow> db_wf (snd (run_sched d rs sched))"
proof (induction sched arbitrary: d rs)
  case Nil
  then show ?case by simp
next
  case (Cons a sched)
  obtain i now where a: "a = (i, now)" by (cases a)
  have "db_wf (snd (step now d (rs ! i)))"
    using Cons.prems by (rule step_wf)
  from Cons.IH [OF this] Cons.IH [OF Cons.prems] show ?case
    by (simp add: a run_sched_Cons del: run_sched.simps)
qed

text \<open>A call left alone for its two statements is the uninterrupted handler.\<close>

lemma run_sched_serial:
  "run_sched d [Received body] [(0, now), (0, now)] = ([Finished (fst (subscribe now d body))], snd (subscribe now d body))"
  by (auto simp: subscribe_def split: sum.splits option.splits prod.splits)

text \<open>
  A body whose \<open>email\<close> is absent or is not a string is the only kind the schema rejects;
  the answer is 400 with the field name, and the database is not touched.
\<close>

lemma invalid_email_type_rejected:
  assumes "\<forall>s. obj_get props ''email'' \<noteq> Some (JStr s)"
  shows "\<exists>msg. msg \<noteq> [] \<and>
           subscribe now d (JObj props) = (Responded 400 (ValidationJson msg ''email''), d)"
proof (cases "obj_get props ''email''")
  case None
  then show ?thesis
    by (simp add: subscribe_def api_subscribers_create_def insertSubscriberSchema_def
        zod_string_def on_zod_error_def)
next
  case (Some j)
  with assms show ?thesis
    by (cases j) (simp_all add: subscribe_def api_subscribers_create_def insertSubscriberSchema_def
        zod_string_def on_zod_error_def)
qed

section \<open>Facts about interleaved runs\<close>

lemma filter_update_count:
  "i < length xs \<Longrightarrow>
   length (filter P (xs[i := x])) + (if P (xs ! i) then 1 else 0) =
   length (filter P xs) + (if P x then 1 else 0)"
proof (induction xs arbitrary: i)
  case Nil
  then show ?case by simp
next
  case (Cons a xs)
  show ?case
  proof (cases i)
    case 0
    then show ?thesis by simp
  next
    case (Suc j)
    with Cons.prems have "j < length xs" by simp
    from Cons.IH [OF this] show ?thesis by (simp add: Suc)
  qed
qed

lemma distinct_filter_one:
  "distinct (map f xs) \<Longrightarrow> y \<in> f ` set xs \<Longrightarrow> length (filter (\<lambda>x. f x = y) xs) = 1"
proof (induction xs)
  case Nil
  then show ?case by simp
next
  case (Cons a xs)
  show ?case
  proof (cases "f a = y")
    case True
    from Cons.prems(1) have "f a \<notin> f ` set xs" by simp
    with True have "\<forall>x\<in>set xs. f x \<noteq> y" by (metis image_eqI)
    then have "filter (\<lambda>x. f x = y) xs = []"
      by (simp add: filter_empty_conv)
    with True show ?thesis by simp
  next
    case False
    with Cons show ?thesis by auto
  qed
qed

lemma is_created_simps [simp]:
  "\<not> is_created (Received b)" "\<not> is_created (Checked i)"
  "\<not> is_created (Finished conflict_response)" "\<not> is_created (Finished unique_email_rethrown)"
  by (simp_all add: conflict_response_def unique_email_rethrown_def)

lemma has_room_less: "has_room n d \<Longrightarrow> m \<le> n \<Longrightarrow> has_room m d"
  by (simp add: has_room_def)

text \<open>
  Replacing the call at \<open>i\<close> by \<open>r'\<close> and the database by \<open>d'\<close> keeps the invariant when
  the pair is one of the four moves a call with the body \<open>{ email: e }\<close> can make.
\<close>

lemma race_inv_move:
  assumes inv: "race_inv e d rs" and i: "i < length rs"
    and wf': "db_wf d'"
    and room': "has_room (length (filter (\<lambda>r. \<not> is_finished r) (rs[i := r']))) d'"
    and shape': "r' = Received (email_body e) \<or> r' = Checked \<lparr>email = e\<rparr> \<or> is_created r' \<or>
                 r' = Finished conflict_response \<or> r' = Finished unique_email_rethrown"
    and fin': "is_finished r' \<Longrightarrow> e \<in> set (emails d')"
    and keep: "set (emails d) \<subseteq> set (emails d')" "set (rows d) \<subseteq> set (rows d')"
    and cnt': "length (filter is_created (rs[i := r'])) = length (filter (\<lambda>s. email s = e) (rows d'))"
    and stored': "\<And>s. r' = Finished (Responded 201 (SubscriberJson s)) \<Longrightarrow> s \<in> set (rows d') \<and> email s = e"
  shows "race_inv e d' (rs[i := r'])"
proof -
  have sub: "set (rs[i := r']) \<subseteq> insert r' (set rs)"
    by (rule set_update_subset_insert)
  have shape: "\<forall>r\<in>set rs. r = Received (email_body e) \<or> r = Checked \<lparr>email = e\<rparr> \<or> is_created r \<or>
                   r = Finished conflict_response \<or> r = Finished unique_email_rethrown"
    using inv by (simp add: race_inv_def)
  have fin: "(\<exists>r\<in>set rs. is_finished r) \<longrightarrow> e \<in> set (emails d)"
    using inv by (simp add: race_inv_def)
  have stored: "\<forall>s. Finished (Responded 201 (SubscriberJson s)) \<in> set rs \<longrightarrow>
           s \<in> set (rows d) \<and> email s = e"
    using inv by (simp add: race_inv_def)
  have c3: "\<forall>r\<in>set (rs[i := r']). r = Received (email_body e) \<or> r = Checked \<lparr>email = e\<rparr> \<or>
          is_created r \<or> r = Finished conflict_response \<or> r = Finished unique_email_rethrown"
    using shape shape' sub by blast
  have c4: "(\<exists>r\<in>set (rs[i := r']). is_finished r) \<longrightarrow> e \<in> set (emails d')"
  proof
    assume "\<exists>r\<in>set (rs[i := r']). is_finished r"
    then obtain r where r: "r \<in> set (rs[i := r'])" and f: "is_finished r" by blast
    from r sub have "r = r' \<or> r \<in> set rs" by blast
    then show "e \<in> set (emails d')"
    proof
      assume "r = r'"
      with f fin' show ?thesis by simp
    next
      assume "r \<in> set rs"
      with f fin have "e \<in> set (emails d)" by blast
      with keep(1) show ?thesis by blast
    qed
  qed
  have c6: "\<forall>s. Finished (Responded 201 (SubscriberJson s)) \<in> set (rs[i := r']) \<longrightarrow>
           s \<in> set (rows d') \<and> email s = e"
  proof (intro allI impI)
    fix s
    assume "Finished (Responded 201 (SubscriberJson s)) \<in> set (rs[i := r'])"
    with sub have "Finished (Responded 201 (SubscriberJson s)) = r' \<or>
                   Finished (Responded 201 (SubscriberJson s)) \<in> set rs" by blast
    then show "s \<in> set (rows d') \<and> email s = e"
    proof
      assume "Finished (Responded 201 (SubscriberJson s)) = r'"
      then show ?thesis using stored' [of s] by simp
    next
      assume "Finished (Responded 201 (SubscriberJson s)) \<in> set rs"
      with stored keep(2) show ?thesis by blast
    qed
  qed
  show ?thesis
    unfolding race_inv_def using wf' room' c3 c4 cnt' c6 by blast
qed

lemma step_race_inv:
  assumes inv: "race_inv e d rs" and i: "i < length rs" and pg: "pg_text e"
  shows "race_inv e (snd (step now d (rs ! i))) (rs[i := fst (step now d (rs ! i))])"
proof -
  let ?U = "\<lambda>r. \<not> is_finished r"
  have wf: "db_wf d" using inv by (simp add: race_inv_def)
  have room: "has_room (length (filter ?U rs)) d" using inv by (simp add: race_inv_def)
  have shape: "\<forall>r\<in>set rs. r = Received (email_body e) \<or> r = Checked \<lparr>email = e\<rparr> \<or> is_created r \<or>
                   r = Finished conflict_response \<or> r = Finished unique_email_rethrown"
    using inv by (simp add: race_inv_def)
  have cnt: "length (filter is_created rs) = length (filter (\<lambda>s. email s = e) (rows d))"
    using inv by (simp add: race_inv_def)
  have mem: "rs ! i \<in> set rs" using i by simp
  note upd = filter_update_count [OF i, of is_created]
  note updU = filter_update_count [OF i, of ?U]
  from shape mem consider
      (received) "rs ! i = Received (email_body e)"
    | (checked) "rs ! i = Checked \<lparr>email = e\<rparr>"
    | (final) "is_finished (rs ! i)"
    by (cases "rs ! i") auto
  then show ?thesis
  proof cases
    case received
    show ?thesis
    proof (cases "e \<in> set (emails d)")
      case True
      then obtain s where "getSubscriberByEmail d e = Inr (Some s)"
        using lookup_hit by blast
      then have st: "step now d (rs ! i) = (Finished conflict_response, d)"
        by (simp add: received)
      have "length (filter ?U (rs[i := Finished conflict_response])) \<le> length (filter ?U rs)"
        using updU [of "Finished conflict_response"] by (simp add: received)
      then have room': "has_room (length (filter ?U (rs[i := Finished conflict_response]))) d"
        using room has_room_less by blast
      have cnt': "length (filter is_created (rs[i := Finished conflict_response])) =
                  length (filter (\<lambda>s. email s = e) (rows d))"
        using upd [of "Finished conflict_response"] cnt by (simp add: received)
      show ?thesis unfolding st fst_conv snd_conv
        using inv i wf room' _ _ _ _ cnt'
        by (rule race_inv_move) (simp_all add: True conflict_response_def)
    next
      case False
      then have "getSubscriberByEmail d e = Inr None" using pg by (simp add: lookup_miss)
      then have st: "step now d (rs ! i) = (Checked \<lparr>email = e\<rparr>, d)"
        by (simp add: received)
      have "length (filter ?U (rs[i := Checked \<lparr>email = e\<rparr>])) = length (filter ?U rs)"
        using updU [of "Checked \<lparr>email = e\<rparr>"] by (simp add: received)
      then have room': "has_room (length (filter ?U (rs[i := Checked \<lparr>email = e\<rparr>]))) d"
        using room by simp
      have cnt': "length (filter is_created (rs[i := Checked \<lparr>email = e\<rparr>])) =
                  length (filter (\<lambda>s. email s = e) (rows d))"
        using upd [of "Checked \<lparr>email = e\<rparr>"] cnt by (simp add: received)
      show ?thesis unfolding st fst_conv snd_conv
        using inv i wf room' _ _ _ _ cnt'
        by (rule race_inv_move) simp_all
    qed
  next
    case checked
    have "?U (rs ! i)" by (simp add: checked)
    with mem have "filter ?U rs \<noteq> []" unfolding filter_empty_conv by blast
    then have "1 \<le> length (filter ?U rs)" by (cases "filter ?U rs") simp_all
    with room have room1: "has_room 1 d" by (rule has_room_less)
    have pg': "pg_text (email \<lparr>email = e\<rparr>)" using pg by simp
    show ?thesis
    proof (cases "e \<in> set (emails d)")
      case True
      let ?d' = "d\<lparr>id_seq := id_seq d + 1\<rparr>"
      have st: "step now d (rs ! i) = (Finished unique_email_rethrown, ?d')"
        using create_taken [OF wf room1 pg', of now] True
        by (simp add: checked unique_email_rethrown_def)
      have wf': "db_wf ?d'"
        using wf by (auto simp: db_wf_def emails_def list_all_iff)
      have "Suc (length (filter ?U (rs[i := Finished unique_email_rethrown]))) = length (filter ?U rs)"
        using updU [of "Finished unique_email_rethrown"] by (simp add: checked)
      then have room': "has_room (length (filter ?U (rs[i := Finished unique_email_rethrown]))) ?d'"
        using room by (simp add: has_room_def)
      have cnt': "length (filter is_created (rs[i := Finished unique_email_rethrown])) =
                  length (filter (\<lambda>s. email s = e) (rows ?d'))"
        using upd [of "Finished unique_email_rethrown"] cnt by (simp add: checked)
      have em: "emails (d\<lparr>id_seq := k\<rparr>) = emails d" for k by (simp add: emails_def)
      show ?thesis unfolding st fst_conv snd_conv
        using inv i wf' room' _ _ _ _ cnt'
        by (rule race_inv_move) (simp_all add: True em unique_email_rethrown_def)
    next
      case False
      let ?row = "\<lparr>email = e, subscriber_id = id_seq d, createdAt = Some now\<rparr>"
      let ?d' = "\<lparr>rows = rows d @ [?row], id_seq = id_seq d + 1\<rparr>"
      let ?r' = "Finished (Responded 201 (SubscriberJson ?row))"
      have st: "step now d (rs ! i) = (?r', ?d')"
        using create_fresh [OF wf room1 pg', of now] False by (simp add: checked)
      have wf': "db_wf ?d'"
        using wf False pg by (auto simp: db_wf_def emails_def list_all_iff)
      have "Suc (length (filter ?U (rs[i := ?r']))) = length (filter ?U rs)"
        using updU [of ?r'] by (simp add: checked)
      then have room': "has_room (length (filter ?U (rs[i := ?r']))) ?d'"
        using room by (simp add: has_room_def)
      have zero: "filter (\<lambda>s. email s = e) (rows d) = []"
        using False by (simp add: filter_email_empty)
      have cnt': "length (filter is_created (rs[i := ?r'])) =
                  length (filter (\<lambda>s. email s = e) (rows ?d'))"
        using upd [of ?r'] cnt zero by (simp add: checked)
      show ?thesis unfolding st fst_conv snd_conv
        using inv i wf' room' _ _ _ _ cnt'
        by (rule race_inv_move) (auto simp: emails_def)
    qed
  next
    case final
    then obtain out where out: "rs ! i = Finished out" by (cases "rs ! i") auto
    then have "step now d (rs ! i) = (rs ! i, d)" by simp
    then show ?thesis using inv by simp
  qed
qed

lemma run_sched_race_inv:
  "race_inv e d rs \<Longrightarrow> pg_text e \<Longrightarrow>
   race_inv e (snd (run_sched d rs sched)) (fst (run_sched d rs sched))"
proof (induction sched arbitrary: d rs)
  case Nil
  then show ?case by simp
next
  case (Cons a sched)
  obtain i now where a: "a = (i, now)" by (cases a)
  show ?case
  proof (cases "i < length rs")
    case True
    from Cons.IH [OF step_race_inv [OF Cons.prems(1) True Cons.prems(2), of now] Cons.prems(2)] True
    show ?thesis
      by (simp add: a run_sched_Cons del: run_sched.simps)
  next
    case False
    with Cons.IH [OF Cons.prems] show ?thesis
      by (simp add: a run_sched_Cons del: run_sched.simps)
  qed
qed

lemma step_phase: "min 2 (Suc (phase r)) \<le> phase (fst (step now d r))"
  by (cases r) (auto split: sum.splits option.splits prod.splits)

lemma run_sched_length: "length (fst (run_sched d rs sched)) = length rs"
proof (induction sched arbitrary: d rs)
  case Nil
  then show ?case by simp
next
  case (Cons a sched)
  obtain i now where a: "a = (i, now)" by (cases a)
  show ?case using Cons.IH by (simp add: a run_sched_Cons del: run_sched.simps)
qed

lemma run_sched_phase:
  "i < length rs \<Longrightarrow>
   min 2 (phase (rs ! i) + count_list (map fst sched) i) \<le> phase (fst (run_sched d rs sched) ! i)"
proof (induction sched arbitrary: d rs)
  case Nil
  then show ?case by simp
next
  case (Cons a sched)
  obtain j now where a: "a = (j, now)" by (cases a)
  show ?case
  proof (cases "j < length rs")
    case False
    with Cons.prems have "j \<noteq> i" by auto
    with Cons.IH [OF Cons.prems, of d] False show ?thesis
      by (simp add: a run_sched_Cons del: run_sched.simps)
  next
    case True
    let ?r' = "fst (step now d (rs ! j))"
    let ?d' = "snd (step now d (rs ! j))"
    have len: "i < length (rs[j := ?r'])" using Cons.prems by simp
    note ih = Cons.IH [OF len, of ?d']
    show ?thesis
    proof (cases "j = i")
      case True
      have "min 2 (Suc (phase (rs ! i))) \<le> phase ?r'"
        using step_phase [of "rs ! j" now d] True by simp
      then have "min 2 (phase (rs ! i) + Suc (count_list (map fst sched) i))
                 \<le> min 2 (phase ((rs[j := ?r']) ! i) + count_list (map fst sched) i)"
        using True Cons.prems by auto
      with ih True \<open>j < length rs\<close> show ?thesis
        by (simp add: a run_sched_Cons del: run_sched.simps)
    next
      case False
      with ih True show ?thesis
        by (simp add: a run_sched_Cons del: run_sched.simps)
    qed
  qed
qed

lemma phase_finished: "2 \<le> phase r \<Longrightarrow> is_finished r"
  by (cases r) auto

section \<open>Facts about buildUrl\<close>

lemma split_first_sound:
  "split_first p s = Some (pre, post) \<Longrightarrow> s = pre @ p @ post"
proof (induction s arbitrary: pre)
  case Nil
  then show ?case by (simp split: if_splits)
next
  case (Cons c cs)
  show ?case
  proof (cases "starts_with (c # cs) p")
    case True
    with Cons.prems have "pre = []" and "post = drop (length p) (c # cs)" by simp_all
    moreover from True have "take (length p) (c # cs) = p" by (simp add: starts_with_def)
    ultimately show ?thesis by (metis append_Nil append_take_drop_id)
  next
    case False
    with Cons.prems obtain pre' where "split_first p cs = Some (pre', post)" and "pre = c # pre'"
      by (auto split: option.splits)
    with Cons.IH [of pre'] show ?thesis by simp
  qed
qed

lemma split_first_leftmost:
  "split_first p s = Some (pre, post) \<Longrightarrow> k < length pre \<Longrightarrow> \<not> starts_with (drop k s) p"
proof (induction s arbitrary: pre k)
  case Nil
  then show ?case by (simp split: if_splits)
next
  case (Cons c cs)
  show ?case
  proof (cases "starts_with (c # cs) p")
    case True
    with Cons.prems show ?thesis by simp
  next
    case False
    with Cons.prems obtain pre' where sf: "split_first p cs = Some (pre', post)" and pre: "pre = c # pre'"
      by (auto split: option.splits)
    show ?thesis
    proof (cases k)
      case 0
      with False show ?thesis by simp
    next
      case (Suc j)
      with Cons.prems(2) pre have "j < length pre'" by simp
      from Cons.IH [OF sf this] Suc show ?thesis by simp
    qed
  qed
qed

lemma get_substitution_plain:
  "CHR ''$'' \<notin> set r \<Longrightarrow> get_substitution m pre post r = r"
  by (induction m pre post r rule: get_substitution.induct) auto

lemma str_replace_plain:
  "split_first p s = Some (pre, post) \<Longrightarrow> CHR ''$'' \<notin> set r \<Longrightarrow> str_replace s p r = pre @ r @ post"
  by (simp add: str_replace_def get_substitution_plain)

lemma substitute_absent:
  "\<not> str_includes url (CHR '':'' # key) \<Longrightarrow> substitute url (key, v) = url"
  by (simp add: substitute_def)

lemma substitute_plain:
  "split_first (CHR '':'' # key) url = Some (pre, post) \<Longrightarrow> CHR ''$'' \<notin> set (String_of v) \<Longrightarrow>
   substitute url (key, v) = pre @ String_of v @ post"
  by (simp add: substitute_def str_includes_def str_replace_plain)

lemma buildUrl_no_params: "buildUrl p None = p"
  by (simp add: buildUrl_def)

lemma buildUrl_no_placeholder:
  "\<forall>kv\<in>set entries. \<not> str_includes p (CHR '':'' # fst kv) \<Longrightarrow> buildUrl p (Some entries) = p"
proof -
  assume a: "\<forall>kv\<in>set entries. \<not> str_includes p (CHR '':'' # fst kv)"
  then have "foldl substitute p entries = p"
  proof (induction entries)
    case Nil
    then show ?case by simp
  next
    case (Cons kv entries)
    then have "substitute p kv = p" by (cases kv) (simp add: substitute_def)
    with Cons show ?case by simp
  qed
  then show ?thesis by (simp add: buildUrl_def)
qed

text \<open>The example of the doc comment: \<open>buildUrl('/api/users/:id', { id: 123 })\<close>.\<close>

lemma String_of_123: "String_of (PNum (Abs_safe_integer 123)) = ''123''"
proof -
  have "Rep_safe_integer (Abs_safe_integer 123) = 123"
    by (simp add: Abs_safe_integer_inverse)
  moreover have "digits 123 = ''123''" by code_simp
  ultimately show ?thesis by (simp add: String_of_def)
qed

lemma buildUrl_example:
  "buildUrl ''/api/users/:id'' (Some [(''id'', PNum (Abs_safe_integer 123))]) = ''/api/users/123''"
  by (simp add: buildUrl_def substitute_def str_includes_def str_replace_def starts_with_def
      String_of_123)

section \<open>The claims\<close>

subsection \<open>C1: a uniqueness violation at write time\<close>

text \<open>
  Claim C1 says that a call whose lookup missed and whose insert is then rejected for
  uniqueness ends as a conflict (409, "Email already subscribed"). The handler has no such
  branch: its \<open>catch\<close> answers only a \<open>ZodError\<close> and throws everything else again.
  What holds instead (C1 as amended): such a call ends with the uniqueness violation
  re-thrown out of the handler, it is not answered with the 409 conflict body, and the
  stored rows are the same as before the insert.
\<close>

theorem insert_violation_rethrown:
  assumes "step t0 d0 (Received body) = (Checked inp, d1)"
    and "createSubscriber now d inp = (Inl (UniqueViolation c), d')"
  shows "step now d (Checked inp) = (Finished (Rethrown (DbError (UniqueViolation c))), d') \<and>
         fst (step now d (Checked inp)) \<noteq> Finished (Responded 409 (MessageJson ''Email already subscribed'')) \<and>
         rows d' = rows d"
  using assms(2) create_rows [OF assms(2)] by simp

theorem insert_violation_rethrown_witness:
  "step 1 empty_db (Received (email_body ''a@example.com'')) = (Checked \<lparr>email = ''a@example.com''\<rparr>, empty_db) \<and>
   createSubscriber 3 \<lparr>rows = [\<lparr>email = ''a@example.com'', subscriber_id = 1, createdAt = Some 2\<rparr>], id_seq = 2\<rparr>
       \<lparr>email = ''a@example.com''\<rparr> =
     (Inl (UniqueViolation ''subscribers_email_unique''),
      \<lparr>rows = [\<lparr>email = ''a@example.com'', subscriber_id = 1, createdAt = Some 2\<rparr>], id_seq = 3\<rparr>) \<and>
   step 3 \<lparr>rows = [\<lparr>email = ''a@example.com'', subscriber_id = 1, createdAt = Some 2\<rparr>], id_seq = 2\<rparr>
       (Checked \<lparr>email = ''a@example.com''\<rparr>) =
     (Finished (Rethrown (DbError (UniqueViolation ''subscribers_email_unique''))),
      \<lparr>rows = [\<lparr>email = ''a@example.com'', subscriber_id = 1, createdAt = Some 2\<rparr>], id_seq = 3\<rparr>)"
proof -
  have h1: "step 1 empty_db (Received (email_body ''a@example.com'')) = (Checked \<lparr>email = ''a@example.com''\<rparr>, empty_db)"
    by (simp add: getSubscriberByEmail_def empty_db_def pg_text_def)
  have h2: "createSubscriber 3 \<lparr>rows = [\<lparr>email = ''a@example.com'', subscriber_id = 1, createdAt = Some 2\<rparr>], id_seq = 2\<rparr>
       \<lparr>email = ''a@example.com''\<rparr> =
     (Inl (UniqueViolation ''subscribers_email_unique''),
      \<lparr>rows = [\<lparr>email = ''a@example.com'', subscriber_id = 1, createdAt = Some 2\<rparr>], id_seq = 3\<rparr>)"
    by (simp add: createSubscriber_def emails_def Let_def pg_text_def serial_max_def)
  show ?thesis using h1 h2 insert_violation_rethrown [OF h1 h2] by blast
qed

text \<open>
  C1 as stated fails: the lookup of a call misses on the empty table, another call stores
  the same email, and the insert of the first call is rejected; the call ends with the
  re-thrown violation, not with the 409 conflict.
\<close>

theorem lookup_miss_insert_violation_not_conflict:
  "step 1 empty_db (Received (email_body ''a@example.com'')) = (Checked \<lparr>email = ''a@example.com''\<rparr>, empty_db) \<and>
   fst (step 3 \<lparr>rows = [\<lparr>email = ''a@example.com'', subscriber_id = 1, createdAt = Some 2\<rparr>], id_seq = 2\<rparr>
       (Checked \<lparr>email = ''a@example.com''\<rparr>)) =
     Finished (Rethrown (DbError (UniqueViolation ''subscribers_email_unique''))) \<and>
   fst (step 3 \<lparr>rows = [\<lparr>email = ''a@example.com'', subscriber_id = 1, createdAt = Some 2\<rparr>], id_seq = 2\<rparr>
       (Checked \<lparr>email = ''a@example.com''\<rparr>)) \<noteq>
     Finished (Responded 409 (MessageJson ''Email already subscribed''))"
  by (simp add: getSubscriberByEmail_def empty_db_def createSubscriber_def emails_def Let_def
      pg_text_def serial_max_def)

subsection \<open>C2: rejection of a malformed email\<close>

text \<open>
  Claim C2 says that an email string failing the email-format rule is answered with 400 and
  field \<open>email\<close>, and that nothing is stored. The schema generated from the table checks
  only that \<open>email\<close> is a string, so the specification's own malformed example
  \<open>not-an-email\<close> is accepted: the call is answered with 201 and a row is stored.
\<close>

theorem not_an_email_is_accepted:
  "subscribe 5 empty_db (email_body ''not-an-email'') =
     (Responded 201 (SubscriberJson \<lparr>email = ''not-an-email'', subscriber_id = 1, createdAt = Some 5\<rparr>),
      \<lparr>rows = [\<lparr>email = ''not-an-email'', subscriber_id = 1, createdAt = Some 5\<rparr>], id_seq = 2\<rparr>)"
  by (simp add: subscribe_def getSubscriberByEmail_def empty_db_def createSubscriber_def emails_def
      Let_def pg_text_def serial_max_def)

subsection \<open>C3: an email that is already stored\<close>

text \<open>
  Claim C3: a call whose body carries an email that some stored row already has is answered
  with 409 and the body message "Email already subscribed"; no row is added and the
  database is exactly what it was.
\<close>

theorem subscribe_existing_conflict:
  assumes "obj_get props ''email'' = Some (JStr e)" and "e \<in> set (emails d)"
  shows "subscribe now d (JObj props) =
           (Responded 409 (MessageJson ''Email already subscribed''), d)"
  using subscribe_conflict [OF assms] by (simp add: conflict_response_def)

theorem subscribe_existing_conflict_witness:
  "obj_get [(''email'', JStr ''a@example.com''), (''ref'', JNum 7)] ''email'' = Some (JStr ''a@example.com'') \<and>
   ''a@example.com'' \<in> set (emails \<lparr>rows = [\<lparr>email = ''a@example.com'', subscriber_id = 1, createdAt = Some 5\<rparr>], id_seq = 2\<rparr>) \<and>
   subscribe 9 \<lparr>rows = [\<lparr>email = ''a@example.com'', subscriber_id = 1, createdAt = Some 5\<rparr>], id_seq = 2\<rparr>
       (JObj [(''email'', JStr ''a@example.com''), (''ref'', JNum 7)]) =
     (Responded 409 (MessageJson ''Email already subscribed''),
      \<lparr>rows = [\<lparr>email = ''a@example.com'', subscriber_id = 1, createdAt = Some 5\<rparr>], id_seq = 2\<rparr>)"
proof -
  let ?d = "\<lparr>rows = [\<lparr>email = ''a@example.com'', subscriber_id = 1, createdAt = Some 5\<rparr>], id_seq = 2\<rparr>"
  have h1: "obj_get [(''email'', JStr ''a@example.com''), (''ref'', JNum 7)] ''email'' = Some (JStr ''a@example.com'')"
    by (simp add: obj_get_def)
  have h2: "''a@example.com'' \<in> set (emails ?d)"
    by (simp add: emails_def)
  show ?thesis using h1 h2 subscribe_existing_conflict [OF h1 h2, of 9] by simp
qed

subsection \<open>C4: first call created, every later call a conflict\<close>

text \<open>
  Claim C4: for a valid email \<open>e\<close> and a well-formed database that does not hold \<open>e\<close>
  and whose sequence has an id left, the first call with \<open>e\<close> is answered with 201 and
  the new row (generated id, email \<open>e\<close>, creation time), and that row is stored; after
  that, whatever calls come in between, every further call with \<open>e\<close> is answered with the
  409 conflict and changes nothing.
\<close>

theorem first_created_then_conflict:
  assumes "db_wf d" and "has_room 1 d" and "address_text e" and "e \<notin> set (emails d)"
  shows "\<exists>d1. subscribe now d (email_body e) =
                (Responded 201
                   (SubscriberJson \<lparr>email = e, subscriber_id = id_seq d, createdAt = Some now\<rparr>), d1)
              \<and> rows d1 = rows d @ [\<lparr>email = e, subscriber_id = id_seq d, createdAt = Some now\<rparr>]
              \<and> (\<forall>later now'.
                    subscribe now' (snd (run_requests d1 later)) (email_body e) =
                      (Responded 409 (MessageJson ''Email already subscribed''),
                       snd (run_requests d1 later)))"
proof -
  let ?row = "\<lparr>email = e, subscriber_id = id_seq d, createdAt = Some now\<rparr>"
  let ?d1 = "\<lparr>rows = rows d @ [?row], id_seq = id_seq d + 1\<rparr>"
  have pg: "pg_text e" using assms(3) by (rule address_text_pg)
  have first: "subscribe now d (email_body e) = (Responded 201 (SubscriberJson ?row), ?d1)"
    using assms(1,2) pg assms(4) by (rule subscribe_fresh)
  have stored: "rows ?d1 = rows d @ [?row]" by simp
  have "e \<in> set (emails ?d1)" by (simp add: emails_def)
  then have "e \<in> set (emails (snd (run_requests ?d1 later)))" for later
    by (rule run_requests_keeps_email)
  then have "subscribe now' (snd (run_requests ?d1 later)) (email_body e) =
               (Responded 409 (MessageJson ''Email already subscribed''), snd (run_requests ?d1 later))"
    for later now'
    using subscribe_conflict_body by (simp add: conflict_response_def)
  with first stored show ?thesis by blast
qed

theorem first_created_then_conflict_witness:
  "db_wf empty_db \<and> has_room 1 empty_db \<and> address_text ''a@example.com'' \<and>
   ''a@example.com'' \<notin> set (emails empty_db) \<and>
   (\<exists>d1. subscribe 1 empty_db (email_body ''a@example.com'') =
            (Responded 201 (SubscriberJson \<lparr>email = ''a@example.com'', subscriber_id = 1, createdAt = Some 1\<rparr>), d1)
          \<and> rows d1 = [\<lparr>email = ''a@example.com'', subscriber_id = 1, createdAt = Some 1\<rparr>]
          \<and> (\<forall>later now'.
                subscribe now' (snd (run_requests d1 later)) (email_body ''a@example.com'') =
                  (Responded 409 (MessageJson ''Email already subscribed''),
                   snd (run_requests d1 later))))"
proof -
  have h1: "db_wf empty_db" by (rule db_wf_empty)
  have h2: "has_room 1 empty_db" by (simp add: has_room_def empty_db_def serial_max_def)
  have h3: "address_text ''a@example.com''" by (simp add: address_text_def)
  have h4: "''a@example.com'' \<notin> set (emails empty_db)" by (simp add: empty_db_def emails_def)
  have "id_seq empty_db = 1" and "rows empty_db = []" by (simp_all add: empty_db_def)
  then show ?thesis
    using h1 h2 h3 h4 first_created_then_conflict [OF h1 h2 h3 h4, of 1] by simp
qed

subsection \<open>C5: no two rows share an email\<close>

text \<open>
  Claim C5: in every database reached from the empty one by calls served one after the
  other, and also by calls interleaved statement by statement, the stored emails are
  pairwise distinct; and every single call, and every single statement of a call, keeps
  them distinct, whatever its outcome.
\<close>

theorem unique_emails_invariant:
  "distinct (emails (snd (run_requests empty_db reqs))) \<and>
   distinct (emails (snd (run_sched empty_db rs sched))) \<and>
   (distinct (emails d) \<longrightarrow> distinct (emails (snd (subscribe now d body)))) \<and>
   (distinct (emails d) \<longrightarrow> distinct (emails (snd (step now d r))))"
proof -
  have "distinct (emails empty_db)" by (simp add: empty_db_def emails_def)
  then show ?thesis
    using run_requests_distinct run_sched_distinct subscribe_distinct step_distinct by blast
qed

theorem unique_emails_invariant_witness:
  "distinct (emails \<lparr>rows = [\<lparr>email = ''a@example.com'', subscriber_id = 1, createdAt = Some 5\<rparr>], id_seq = 2\<rparr>) \<and>
   distinct (emails (snd (subscribe 9
      \<lparr>rows = [\<lparr>email = ''a@example.com'', subscriber_id = 1, createdAt = Some 5\<rparr>], id_seq = 2\<rparr>
      (email_body ''b@example.com'')))) \<and>
   distinct (emails (snd (step 9
      \<lparr>rows = [\<lparr>email = ''a@example.com'', subscriber_id = 1, createdAt = Some 5\<rparr>], id_seq = 2\<rparr>
      (Checked \<lparr>email = ''a@example.com''\<rparr>))))"
proof -
  let ?d = "\<lparr>rows = [\<lparr>email = ''a@example.com'', subscriber_id = 1, createdAt = Some 5\<rparr>], id_seq = 2\<rparr>"
  have h: "distinct (emails ?d)" by (simp add: emails_def)
  show ?thesis
    using h unique_emails_invariant [of "[]" "[]" "[]" ?d 9 "email_body ''b@example.com''"
        "Checked \<lparr>email = ''a@example.com''\<rparr>"]
    by blast
qed

subsection \<open>C6: concurrent calls with the same email\<close>

text \<open>
  Claim C6 says that of \<open>n \<ge> 2\<close> concurrent calls with the same valid email exactly one
  is created and all others end as conflicts, never otherwise. What holds instead (C6 as
  amended): for a valid email, a well-formed database that does not hold it and whose
  sequence has an id left for each call, in every interleaving in which each call gets to
  run its two statements, exactly one call is answered with 201, every other call either
  is answered with the 409 conflict or ends with the uniqueness violation re-thrown, the
  row of the 201 answer is stored with that email, and afterwards exactly one stored row
  has the email.
\<close>

theorem concurrent_duplicates_one_created:
  assumes "2 \<le> n" and "db_wf d" and "has_room n d" and "address_text e"
    and "e \<notin> set (emails d)"
    and "list_all (\<lambda>i. 2 \<le> count_list (map fst sched) i) [0..<n]"
    and "run_sched d (replicate n (Received (email_body e))) sched = (rs, d')"
  shows "length rs = n \<and>
         length (filter is_created rs) = 1 \<and>
         (\<forall>r\<in>set rs. is_created r \<or> r = Finished conflict_response \<or> r = Finished unique_email_rethrown) \<and>
         (\<forall>s. Finished (Responded 201 (SubscriberJson s)) \<in> set rs \<longrightarrow>
              s \<in> set (rows d') \<and> email s = e) \<and>
         length (filter (\<lambda>s. email s = e) (rows d')) = 1"
proof -
  let ?rs0 = "replicate n (Received (email_body e))"
  have pg: "pg_text e" using assms(4) by (rule address_text_pg)
  have zero: "filter (\<lambda>s. email s = e) (rows d) = []"
    using assms(5) by (simp add: filter_email_empty)
  have "race_inv e d ?rs0"
    using assms(2,3,5) zero by (auto simp: race_inv_def)
  from run_sched_race_inv [OF this pg, of sched] have inv: "race_inv e d' rs"
    by (simp add: assms(7))
  have len: "length rs = n"
    using run_sched_length [of d ?rs0 sched] by (simp add: assms(7))
  have finished: "is_finished (rs ! i)" if "i < n" for i
  proof -
    have "2 \<le> count_list (map fst sched) i"
      using assms(6) that by (simp add: list_all_iff)
    moreover have "min 2 (phase (?rs0 ! i) + count_list (map fst sched) i) \<le> phase (rs ! i)"
      using run_sched_phase [of i ?rs0 sched d] that by (simp add: assms(7))
    ultimately have "2 \<le> phase (rs ! i)" by simp
    then show ?thesis by (rule phase_finished)
  qed
  have allfin: "\<forall>r\<in>set rs. is_finished r"
    using finished len by (auto simp: in_set_conv_nth)
  have "rs \<noteq> []" using len assms(1) by auto
  then have "\<exists>r\<in>set rs. is_finished r" using allfin by (cases rs) auto
  then have e_in: "e \<in> set (emails d')" using inv by (simp add: race_inv_def)
  have "distinct (map email (rows d'))" using inv by (simp add: race_inv_def db_wf_def emails_def)
  then have one: "length (filter (\<lambda>s. email s = e) (rows d')) = 1"
    using e_in by (intro distinct_filter_one) (simp_all add: emails_def)
  have shape: "\<forall>r\<in>set rs. is_created r \<or> r = Finished conflict_response \<or> r = Finished unique_email_rethrown"
  proof
    fix r assume r: "r \<in> set rs"
    then have "is_finished r" using allfin by simp
    moreover have "r = Received (email_body e) \<or> r = Checked \<lparr>email = e\<rparr> \<or> is_created r \<or>
                   r = Finished conflict_response \<or> r = Finished unique_email_rethrown"
      using inv r by (simp add: race_inv_def)
    ultimately show "is_created r \<or> r = Finished conflict_response \<or> r = Finished unique_email_rethrown"
      by auto
  qed
  have stored: "\<forall>s. Finished (Responded 201 (SubscriberJson s)) \<in> set rs \<longrightarrow>
              s \<in> set (rows d') \<and> email s = e"
    using inv by (simp add: race_inv_def)
  have "length (filter is_created rs) = 1" using inv one by (simp add: race_inv_def)
  with len shape stored one show ?thesis by simp
qed

theorem concurrent_duplicates_one_created_witness:
  "(2::nat) \<le> 3 \<and> db_wf empty_db \<and> has_room 3 empty_db \<and> address_text ''a@example.com'' \<and>
   ''a@example.com'' \<notin> set (emails empty_db) \<and>
   list_all (\<lambda>i. 2 \<le> count_list (map fst [(0, 1), (1, 2), (0, 3), (2, 4), (1, 5), (2, 6::int)]) i) [0..<3] \<and>
   run_sched empty_db (replicate 3 (Received (email_body ''a@example.com'')))
       [(0, 1), (1, 2), (0, 3), (2, 4), (1, 5), (2, 6)] =
     ([Finished (Responded 201 (SubscriberJson \<lparr>email = ''a@example.com'', subscriber_id = 1, createdAt = Some 3\<rparr>)),
       Finished unique_email_rethrown,
       Finished conflict_response],
      \<lparr>rows = [\<lparr>email = ''a@example.com'', subscriber_id = 1, createdAt = Some 3\<rparr>], id_seq = 3\<rparr>) \<and>
   length (filter is_created
      [Finished (Responded 201 (SubscriberJson \<lparr>email = ''a@example.com'', subscriber_id = 1, createdAt = Some 3\<rparr>)),
       Finished unique_email_rethrown,
       Finished conflict_response]) = 1 \<and>
   length (filter (\<lambda>s. email s = ''a@example.com'')
      (rows \<lparr>rows = [\<lparr>email = ''a@example.com'', subscriber_id = 1, createdAt = Some 3\<rparr>], id_seq = 3\<rparr>)) = 1"
proof -
  have h1: "(2::nat) \<le> 3" by simp
  have h2: "db_wf empty_db" by (rule db_wf_empty)
  have h3: "has_room 3 empty_db" by (simp add: has_room_def empty_db_def serial_max_def)
  have h4: "address_text ''a@example.com''" by (simp add: address_text_def)
  have h5: "''a@example.com'' \<notin> set (emails empty_db)" by (simp add: empty_db_def emails_def)
  have h6: "list_all (\<lambda>i. 2 \<le> count_list (map fst [(0, 1), (1, 2), (0, 3), (2, 4), (1, 5), (2, 6::int)]) i) [0..<3]"
    by (simp add: upt_conv_Cons)
  have h7: "run_sched empty_db (replicate 3 (Received (email_body ''a@example.com'')))
       [(0, 1), (1, 2), (0, 3), (2, 4), (1, 5), (2, 6)] =
     ([Finished (Responded 201 (SubscriberJson \<lparr>email = ''a@example.com'', subscriber_id = 1, createdAt = Some 3\<rparr>)),
       Finished unique_email_rethrown,
       Finished conflict_response],
      \<lparr>rows = [\<lparr>email = ''a@example.com'', subscriber_id = 1, createdAt = Some 3\<rparr>], id_seq = 3\<rparr>)"
    by (simp add: numeral_3_eq_3 getSubscriberByEmail_def empty_db_def createSubscriber_def emails_def
        Let_def unique_email_rethrown_def pg_text_def serial_max_def)
  show ?thesis
    using h1 h2 h3 h4 h5 h6 h7 concurrent_duplicates_one_created [OF h1 h2 h3 h4 h5 h6 h7] by blast
qed

text \<open>
  C6 as stated fails: when both lookups run before either insert, the second insert is
  rejected and that call ends with the re-thrown violation instead of a conflict answer.
\<close>

theorem concurrent_duplicate_rethrown:
  "run_sched empty_db [Received (email_body ''a@example.com''), Received (email_body ''a@example.com'')]
     [(0, 1), (1, 2), (0, 3), (1, 4)] =
   ([Finished (Responded 201 (SubscriberJson \<lparr>email = ''a@example.com'', subscriber_id = 1, createdAt = Some 3\<rparr>)),
     Finished (Rethrown (DbError (UniqueViolation ''subscribers_email_unique'')))],
    \<lparr>rows = [\<lparr>email = ''a@example.com'', subscriber_id = 1, createdAt = Some 3\<rparr>], id_seq = 3\<rparr>)"
  by (simp add: getSubscriberByEmail_def empty_db_def createSubscriber_def emails_def Let_def
      pg_text_def serial_max_def)

subsection \<open>C7: two different emails\<close>

text \<open>
  Claim C7: for two different valid emails, neither stored yet in a well-formed database
  whose sequence has two ids left, the call with the first and then the call with the
  second are both answered with 201, the two answers carry the two emails and different
  ids, and the two rows answered are the rows added to the table, in this order.
\<close>

theorem distinct_emails_distinct_ids:
  assumes "db_wf d" and "has_room 2 d" and "address_text e1" and "address_text e2"
    and "e1 \<noteq> e2" and "e1 \<notin> set (emails d)" and "e2 \<notin> set (emails d)"
  shows "\<exists>s1 d1 s2 d2.
           subscribe t1 d (email_body e1) = (Responded 201 (SubscriberJson s1), d1) \<and>
           subscribe t2 d1 (email_body e2) = (Responded 201 (SubscriberJson s2), d2) \<and>
           email s1 = e1 \<and> email s2 = e2 \<and> subscriber_id s1 \<noteq> subscriber_id s2 \<and>
           rows d1 = rows d @ [s1] \<and> rows d2 = rows d @ [s1, s2]"
proof -
  let ?s1 = "\<lparr>email = e1, subscriber_id = id_seq d, createdAt = Some t1\<rparr>"
  let ?d1 = "\<lparr>rows = rows d @ [?s1], id_seq = id_seq d + 1\<rparr>"
  let ?s2 = "\<lparr>email = e2, subscriber_id = id_seq ?d1, createdAt = Some t2\<rparr>"
  let ?d2 = "\<lparr>rows = rows ?d1 @ [?s2], id_seq = id_seq ?d1 + 1\<rparr>"
  have pg1: "pg_text e1" and pg2: "pg_text e2"
    using assms(3,4) by (simp_all add: address_text_pg)
  have room: "has_room 1 d" using assms(2) by (simp add: has_room_def)
  have one: "subscribe t1 d (email_body e1) = (Responded 201 (SubscriberJson ?s1), ?d1)"
    using assms(1) room pg1 assms(6) by (rule subscribe_fresh)
  have wf1: "db_wf ?d1"
    using assms(1,6) pg1 by (auto simp: db_wf_def emails_def list_all_iff)
  have room1: "has_room 1 ?d1" using assms(2) by (simp add: has_room_def)
  have fresh2: "e2 \<notin> set (emails ?d1)"
    using assms(5,7) by (auto simp: emails_def)
  have two: "subscribe t2 ?d1 (email_body e2) = (Responded 201 (SubscriberJson ?s2), ?d2)"
    using wf1 room1 pg2 fresh2 by (rule subscribe_fresh)
  have "subscriber_id ?s1 \<noteq> subscriber_id ?s2" by simp
  moreover have "rows ?d1 = rows d @ [?s1]" and "rows ?d2 = rows d @ [?s1, ?s2]" by simp_all
  ultimately show ?thesis
    using one two by (intro exI [of _ ?s1] exI [of _ ?d1] exI [of _ ?s2] exI [of _ ?d2]) simp
qed

theorem distinct_emails_distinct_ids_witness:
  "db_wf empty_db \<and> has_room 2 empty_db \<and>
   address_text ''a@example.com'' \<and> address_text ''b@example.com'' \<and>
   ''a@example.com'' \<noteq> ''b@example.com'' \<and>
   ''a@example.com'' \<notin> set (emails empty_db) \<and> ''b@example.com'' \<notin> set (emails empty_db) \<and>
   (\<exists>s1 d1 s2 d2.
      subscribe 1 empty_db (email_body ''a@example.com'') = (Responded 201 (SubscriberJson s1), d1) \<and>
      subscribe 2 d1 (email_body ''b@example.com'') = (Responded 201 (SubscriberJson s2), d2) \<and>
      email s1 = ''a@example.com'' \<and> email s2 = ''b@example.com'' \<and> subscriber_id s1 \<noteq> subscriber_id s2 \<and>
      rows d1 = [s1] \<and> rows d2 = [s1, s2])"
proof -
  have h1: "db_wf empty_db" by (rule db_wf_empty)
  have h2: "has_room 2 empty_db" by (simp add: has_room_def empty_db_def serial_max_def)
  have h3: "address_text ''a@example.com''" by (simp add: address_text_def)
  have h4: "address_text ''b@example.com''" by (simp add: address_text_def)
  have h5: "''a@example.com'' \<noteq> ''b@example.com''" by simp
  have h6: "''a@example.com'' \<notin> set (emails empty_db)" by (simp add: empty_db_def emails_def)
  have h7: "''b@example.com'' \<notin> set (emails empty_db)" by (simp add: empty_db_def emails_def)
  have "rows empty_db = []" by (simp add: empty_db_def)
  then show ?thesis
    using h1 h2 h3 h4 h5 h6 h7 distinct_emails_distinct_ids [OF h1 h2 h3 h4 h5 h6 h7, of 1 2] by simp
qed

subsection \<open>C8: one validator on both sides\<close>



subsection \<open>C9: additional fields of the body\<close>

text \<open>
  Claim C9: a body object whose \<open>email\<close> is a string, with whatever other fields, is
  parsed to the value holding the email alone, and the call answers and stores exactly
  what it does for the body \<open>{ email }\<close>.
\<close>

theorem extra_fields_stripped:
  assumes "obj_get props ''email'' = Some (JStr e)"
  shows "input api_subscribers_create (JObj props) = Inr \<lparr>email = e\<rparr> \<and>
         input api_subscribers_create (JObj props) = input api_subscribers_create (email_body e) \<and>
         subscribe now d (JObj props) = subscribe now d (email_body e)"
  using parse_object [OF assms] by (simp add: subscribe_def)

theorem extra_fields_stripped_witness:
  "obj_get [(''name'', JStr ''Ann''), (''email'', JStr ''a@example.com''), (''admin'', JBool True)] ''email''
     = Some (JStr ''a@example.com'') \<and>
   input api_subscribers_create
     (JObj [(''name'', JStr ''Ann''), (''email'', JStr ''a@example.com''), (''admin'', JBool True)])
     = Inr \<lparr>email = ''a@example.com''\<rparr> \<and>
   subscribe 3 empty_db
     (JObj [(''name'', JStr ''Ann''), (''email'', JStr ''a@example.com''), (''admin'', JBool True)])
     = subscribe 3 empty_db (email_body ''a@example.com'')"
proof -
  have h: "obj_get [(''name'', JStr ''Ann''), (''email'', JStr ''a@example.com''), (''admin'', JBool True)] ''email''
     = Some (JStr ''a@example.com'')"
    by (simp add: obj_get_def)
  show ?thesis using h extra_fields_stripped [OF h, of 3 empty_db] by simp
qed

subsection \<open>C10: buildUrl\<close>

text \<open>
  Claim C10 says that buildUrl puts the string form of a value in place of the first
  occurrence of its placeholder. The value is passed to \<open>replace\<close> as a replacement
  template, so a value holding a dollar pattern is not inserted as it stands: for the value
  \<open>$$5\<close> the URL gets \<open>$5\<close>.
\<close>

theorem buildUrl_dollar_value_rewritten:
  "buildUrl ''/price/:amount'' (Some [(''amount'', PStr ''$$5'')]) = ''/price/$5''"
  by (simp add: buildUrl_def substitute_def str_includes_def str_replace_def starts_with_def String_of_def)

end
